theory Spec2Isabelle
  imports Complex_Main
begin

section \<open>The terminal waiting animation of \<open>waiting.py\<close>\<close>

text \<open>
  \<open>waiting.py\<close> defines the class \<open>Animation\<close> (methods \<open>__init__\<close>, \<open>__enter__\<close>,
  \<open>__exit__\<close>, \<open>_animate\<close>, \<open>start\<close>, \<open>stop\<close>) and the decorator \<open>wait_for_it\<close>.

  The embedding makes every effect of the code explicit:
  \<^item> the class attribute \<open>Animation.symbol\<close>, an \<open>itertools.cycle\<close> over nine strings, is one
    cursor in the world (the number of \<open>next\<close> calls made so far);
  \<^item> an instance is a reference into a heap of objects whose only attribute is \<open>finished\<close>;
  \<^item> \<open>threading.Thread(target=self._animate).start()\<close> adds a thread to the world; a thread
    is the instance it was started on and the statement of \<open>_animate\<close> it executes next;
  \<^item> \<open>print\<close> and \<open>time.sleep\<close> append events to a log, each with the thread that caused it;
  \<^item> an exception is a value: a call returns \<open>Inl\<close> of the exception or \<open>Inr\<close> of the value.

  Threads interleave at the statements of \<open>_animate\<close>: one step of a thread executes the
  loop test, or the \<open>print\<close> line, or the \<open>sleep\<close> line. The methods called by user code run
  on the main thread. Writing to standard output is taken to succeed.
\<close>

subsection \<open>Python values, exceptions, effects\<close>

datatype pyval = PyNone | PyBool bool | PyInt int | PyStr string

datatype exn = Exc string "pyval list"

fun truthy :: "pyval \<Rightarrow> bool" where
  "truthy PyNone = False"
| "truthy (PyBool b) = b"
| "truthy (PyInt i) = (i \<noteq> 0)"
| "truthy (PyStr s) = (s \<noteq> [])"

datatype tid = MainThread | Worker nat

datatype event = Write string | Flush | Sleep rat

type_synonym ref = nat

subsection \<open>The data\<close>

text \<open>The list given to \<open>itertools.cycle\<close> in the class body.\<close>

definition frames :: "string list" where
  "frames =
    ['' ...      '',
     ''  ...     '',
     ''   ...    '',
     ''    ...   '',
     ''     ...  '',
     ''      ... '',
     ''       ...'',
     '' .      ..'',
     '' ..      .'']"

text \<open>
  \<open>next\<close> on the cycle: the cursor counts the items handed out so far; the item handed out
  is the one at the cursor modulo the length of the list, and the cursor moves on by one.
\<close>

definition next_symbol :: "nat \<Rightarrow> string \<times> nat" where
  "next_symbol c = (frames ! (c mod length frames), Suc c)"

text \<open>The string \<open>stop\<close> prints.\<close>

definition clear_frame :: string where
  "clear_frame = ''          ''"

text \<open>The argument of \<open>time.sleep\<close>, in seconds.\<close>

definition interval :: rat where
  "interval = 75 / 1000"

record animation =
  finished :: bool

datatype pc = AtCheck | AtPrint | AtSleep | Exited

record thread =
  target :: ref
  pc :: pc

record world =
  symbol :: nat
  heap :: "ref \<Rightarrow> animation"
  next_ref :: ref
  threads :: "thread list"
  log :: "(tid \<times> event) list"

subsection \<open>Output\<close>

text \<open>
  \<open>print(x, sep='', end=e, flush=fl)\<close> with one argument: writes \<open>x\<close>, writes \<open>e\<close>, then
  flushes when \<open>fl\<close> holds. With a single argument the separator is never written.
\<close>

definition print_events :: "string \<Rightarrow> string \<Rightarrow> bool \<Rightarrow> event list" where
  "print_events x e fl = [Write x, Write e] @ (if fl then [Flush] else [])"

definition emit :: "tid \<Rightarrow> event list \<Rightarrow> world \<Rightarrow> world" where
  "emit t es w = w\<lparr>log := log w @ map (Pair t) es\<rparr>"

subsection \<open>The methods of \<open>Animation\<close>\<close>

definition init :: "ref \<Rightarrow> world \<Rightarrow> world" where
  "init self w = w\<lparr>heap := (heap w)(self := (heap w self)\<lparr>finished := False\<rparr>)\<rparr>"

text \<open>The constructor call \<open>Animation()\<close>: a fresh object, then \<open>__init__\<close> on it.\<close>

definition Animation :: "world \<Rightarrow> ref \<times> world" where
  "Animation w = (let self = next_ref w in (self, init self (w\<lparr>next_ref := Suc self\<rparr>)))"

definition start :: "ref \<Rightarrow> world \<Rightarrow> world" where
  "start self w = w\<lparr>threads := threads w @ [\<lparr>target = self, pc = AtCheck\<rparr>]\<rparr>"

definition stop :: "ref \<Rightarrow> world \<Rightarrow> world" where
  "stop self w =
     emit MainThread (print_events clear_frame [CHR 0x0D] True)
       (w\<lparr>heap := (heap w)(self := (heap w self)\<lparr>finished := True\<rparr>)\<rparr>)"

definition enter :: "ref \<Rightarrow> world \<Rightarrow> ref \<times> world" where
  "enter self w = (self, start self w)"

text \<open>
  \<open>__exit__\<close> has no \<open>return\<close>: it returns \<open>None\<close>. Its three exception arguments are
  one optional exception here; the method does not read them.
\<close>

definition exit :: "ref \<Rightarrow> exn option \<Rightarrow> world \<Rightarrow> pyval \<times> world" where
  "exit self exc w = (PyNone, stop self w)"

text \<open>
  One step of the thread with index \<open>i\<close>, which runs \<open>_animate\<close>:
  at \<open>AtCheck\<close> the test of the \<open>while\<close>, at \<open>AtPrint\<close> the \<open>print(next(self.symbol), ...)\<close>
  line, at \<open>AtSleep\<close> the \<open>time.sleep(0.075)\<close> line. A thread that left the loop has
  finished and does nothing more.
\<close>

definition set_pc :: "nat \<Rightarrow> pc \<Rightarrow> world \<Rightarrow> world" where
  "set_pc i p w = w\<lparr>threads := (threads w)[i := (threads w ! i)\<lparr>pc := p\<rparr>]\<rparr>"

definition animate :: "nat \<Rightarrow> world \<Rightarrow> world" where
  "animate i w =
     (if i < length (threads w) then
        (let self = target (threads w ! i) in
         case pc (threads w ! i) of
           AtCheck \<Rightarrow> if \<not> finished (heap w self) then set_pc i AtPrint w
                      else set_pc i Exited w
         | AtPrint \<Rightarrow>
             (let (s, c) = next_symbol (symbol w) in
              set_pc i AtSleep
                (emit (Worker i) (print_events s [CHR 0x0D] True) (w\<lparr>symbol := c\<rparr>)))
         | AtSleep \<Rightarrow> set_pc i AtCheck (emit (Worker i) [Sleep interval] w)
         | Exited \<Rightarrow> w)
      else w)"

subsection \<open>The \<open>with\<close> statement and \<open>wait_for_it\<close>\<close>

datatype outcome = Normal | Return pyval | Raise exn

text \<open>
  \<open>with mgr as v: body\<close>: \<open>__enter__\<close>, the body with the value \<open>__enter__\<close> returned, then
  \<open>__exit__\<close> on every way out of the body. When the body raised, \<open>__exit__\<close> gets the
  exception, and the exception goes on unless \<open>__exit__\<close> returned a true value.
\<close>

definition with_stmt ::
  "('m \<Rightarrow> world \<Rightarrow> 'v \<times> world) \<Rightarrow> ('m \<Rightarrow> exn option \<Rightarrow> world \<Rightarrow> pyval \<times> world) \<Rightarrow>
   'm \<Rightarrow> ('v \<Rightarrow> world \<Rightarrow> outcome \<times> world) \<Rightarrow> world \<Rightarrow> outcome \<times> world" where
  "with_stmt ent ex mgr body w =
     (let (v, w1) = ent mgr w;
          (out, w2) = body v w1
      in case out of
           Raise e \<Rightarrow>
             (let (r, w3) = ex mgr (Some e) w2
              in if truthy r then (Normal, w3) else (Raise e, w3))
         | _ \<Rightarrow> (let (r, w3) = ex mgr None w2 in (out, w3)))"

type_synonym func = "pyval list \<Rightarrow> (string \<times> pyval) list \<Rightarrow> world \<Rightarrow> (exn + pyval) \<times> world"

text \<open>
  \<open>wait_for_it func\<close> is \<open>wrapped\<close>: inside \<open>with Animation():\<close> it returns what \<open>func\<close>
  returns on the positional and keyword arguments it was given. A function body left
  without \<open>return\<close> returns \<open>None\<close>.
\<close>

definition wait_for_it :: "func \<Rightarrow> func" where
  "wait_for_it func args kwargs w =
     (let (a, w0) = Animation w;
          (out, w') =
            with_stmt enter exit a
              (\<lambda>_ w1. case func args kwargs w1 of
                         (Inr v, w2) \<Rightarrow> (Return v, w2)
                       | (Inl e, w2) \<Rightarrow> (Raise e, w2))
              w0
      in case out of
           Return v \<Rightarrow> (Inr v, w')
         | Raise e \<Rightarrow> (Inl e, w')
         | Normal \<Rightarrow> (Inr PyNone, w'))"

subsection \<open>Runs\<close>

text \<open>
  A run is a list of actions, each one atomic: a step of a background thread, or a call
  made by user code on the main thread.
\<close>

datatype action = Tick nat | New | Start ref | Stop ref | Enter ref | Exit ref "exn option"

fun step :: "action \<Rightarrow> world \<Rightarrow> world" where
  "step (Tick i) w = animate i w"
| "step New w = snd (Animation w)"
| "step (Start r) w = start r w"
| "step (Stop r) w = stop r w"
| "step (Enter r) w = snd (enter r w)"
| "step (Exit r exc) w = snd (exit r exc w)"

definition run :: "action list \<Rightarrow> world \<Rightarrow> world" where
  "run acts w = fold step acts w"

text \<open>The world of a process that has just imported the module.\<close>

definition world0 :: world where
  "world0 = \<lparr>symbol = 0, heap = (\<lambda>_. \<lparr>finished = False\<rparr>), next_ref = 0, threads = [], log = []\<rparr>"

subsection \<open>Observations\<close>

text \<open>
  What \<open>stop\<close> is expected to leave on the log: the clearing string, a carriage return,
  a flush.
\<close>

definition clear_events :: "(tid \<times> event) list" where
  "clear_events =
     [(MainThread, Write clear_frame), (MainThread, Write [CHR 0x0D]), (MainThread, Flush)]"

text \<open>The events of one thread, in order, and the number of frames it has written.\<close>

definition events_of :: "tid \<Rightarrow> world \<Rightarrow> event list" where
  "events_of t w = map snd (filter (\<lambda>e. fst e = t) (log w))"

fun is_frame_write :: "event \<Rightarrow> bool" where
  "is_frame_write (Write s) = (s \<in> set frames)"
| "is_frame_write _ = False"

definition frame_writes :: "tid \<Rightarrow> world \<Rightarrow> nat" where
  "frame_writes t w = length (filter is_frame_write (events_of t w))"

text \<open>The number of times a thread has gone to sleep.\<close>

fun is_sleep :: "event \<Rightarrow> bool" where
  "is_sleep (Sleep d) = True"
| "is_sleep _ = False"

definition sleeps :: "tid \<Rightarrow> world \<Rightarrow> nat" where
  "sleeps t w = length (filter is_sleep (events_of t w))"

text \<open>
  The events of one passage through the body of the loop in \<open>_animate\<close>, by thread \<open>i\<close>, when
  the cursor stands at \<open>c\<close>.
\<close>

definition iteration_events :: "nat \<Rightarrow> nat \<Rightarrow> (tid \<times> event) list" where
  "iteration_events i c =
     [(Worker i, Write (frames ! (c mod 9))), (Worker i, Write [CHR 0x0D]),
      (Worker i, Flush), (Worker i, Sleep (75 / 1000))]"

text \<open>The number of steps a thread still takes once its instance is finished.\<close>

fun steps_left :: "pc \<Rightarrow> nat" where
  "steps_left AtPrint = 3"
| "steps_left AtSleep = 2"
| "steps_left AtCheck = 1"
| "steps_left Exited = 0"

text \<open>
  A thread of an existing instance whose flag is set. Every action keeps this true of the
  thread.
\<close>

definition stopped_thread :: "nat \<Rightarrow> world \<Rightarrow> bool" where
  "stopped_thread i w \<longleftrightarrow>
     i < length (threads w) \<and> target (threads w ! i) < next_ref w
     \<and> finished (heap w (target (threads w ! i)))"

text \<open>
  Two callables to decorate: \<open>lambda a, b, key: a + b + key\<close> on integers, and a function
  whose body is \<open>raise RuntimeError("x")\<close>.
\<close>

definition add3 :: func where
  "add3 args kwargs w =
     (case (args, kwargs) of
        ([PyInt a, PyInt b], [(k, PyInt c)]) \<Rightarrow>
          if k = ''key'' then (Inr (PyInt (a + b + c)), w)
          else (Inl (Exc ''TypeError'' []), w)
      | _ \<Rightarrow> (Inl (Exc ''TypeError'' []), w))"

definition boom :: func where
  "boom args kwargs w = (Inl (Exc ''RuntimeError'' [PyStr ''x'']), w)"

section \<open>Frame widths\<close>

text \<open>
  C8. Every frame of one full cycle of the symbol sequence has length 10, whatever the
  position of the cursor, and so has the clearing string that \<open>stop\<close> writes: the clearing
  string is as wide as the widest frame.
\<close>

theorem frame_widths:
  "map length frames = replicate 9 10
   \<and> length (fst (next_symbol c)) = 10
   \<and> length clear_frame = 10
   \<and> Max (set (map length frames)) \<le> length clear_frame"
proof -
  have m: "map length frames = replicate 9 10"
    by (simp add: frames_def eval_nat_numeral)
  have "c mod 9 < 9" by simp
  then have "c mod 9 \<in> {0, 1, 2, 3, 4, 5, 6, 7, 8}" by auto
  then have n: "length (frames ! (c mod 9)) = 10"
    by (auto simp: frames_def)
  have l: "length frames = 9" by (simp add: frames_def)
  have c: "length clear_frame = 10" by (simp add: clear_frame_def)
  have "set (map length frames) = {10}"
    unfolding m by (simp add: eval_nat_numeral)
  then have "Max (set (map length frames)) = 10" by simp
  with m n l c show ?thesis by (simp add: next_symbol_def)
qed

section \<open>Facts about single calls\<close>

lemmas defs = animate_def set_pc_def emit_def print_events_def next_symbol_def
  start_def stop_def init_def Animation_def enter_def exit_def Let_def

lemma stop_log: "log (stop r w) = log w @ clear_events"
  by (simp add: stop_def emit_def print_events_def clear_events_def)

lemma stop_finished: "finished (heap (stop r w) r)"
  by (simp add: stop_def emit_def)

lemma stop_stop_heap: "heap (stop r (stop r w)) = heap (stop r w)"
  by (simp add: stop_def emit_def)

lemma stop_pow_log: "log ((stop r ^^ n) w) = log w @ concat (replicate n clear_events)"
proof (induction n)
  case 0
  show ?case by simp
next
  case (Suc n)
  have "concat (replicate n clear_events) @ clear_events
        = concat (replicate n clear_events @ [clear_events])"
    by simp
  also have "\<dots> = concat (replicate (Suc n) clear_events)"
    by (simp only: replicate_append_same) simp
  finally show ?case using Suc by (simp add: stop_log)
qed

section \<open>The decorator\<close>

text \<open>
  C1. \<open>wait_for_it func\<close>, called with any arguments, creates an animation, enters it and
  calls \<open>func\<close> with the same arguments; when that call returns the value \<open>v\<close>, the wrapped
  call returns \<open>v\<close>.
\<close>

theorem wait_for_it_returns:
  assumes "Animation w = (a, w0)" and "func args kwargs (start a w0) = (Inr v, w')"
  shows "fst (wait_for_it func args kwargs w) = Inr v"
  using assms
  by (simp add: wait_for_it_def with_stmt_def enter_def exit_def Let_def split: prod.splits)

text \<open>The call \<open>wait_for_it(f)(1, 2, key=3)\<close> with \<open>f = lambda a, b, key: a + b + key\<close> returns 6.\<close>

theorem wait_for_it_returns_witness:
  "fst (wait_for_it add3 [PyInt 1, PyInt 2] [(''key'', PyInt 3)] world0) = Inr (PyInt 6)"
proof -
  have a: "Animation world0 = (fst (Animation world0), snd (Animation world0))"
    by simp
  have f: "add3 [PyInt 1, PyInt 2] [(''key'', PyInt 3)]
             (start (fst (Animation world0)) (snd (Animation world0)))
           = (Inr (PyInt 6), start (fst (Animation world0)) (snd (Animation world0)))"
    by (simp add: add3_def)
  show ?thesis
    by (rule wait_for_it_returns
          [where func = add3 and args = "[PyInt 1, PyInt 2]"
             and kwargs = "[(''key'', PyInt 3)]", OF a f])
qed

text \<open>
  C2. When the call of \<open>func\<close> raises \<open>e\<close>, the wrapped call raises the same \<open>e\<close>, and the
  world in which the caller sees it is the one \<open>stop\<close> left: \<open>finished\<close> is set and the
  clearing frame is the last thing written.
\<close>

theorem wait_for_it_raises:
  assumes "Animation w = (a, w0)" and "func args kwargs (start a w0) = (Inl e, w')"
  shows "wait_for_it func args kwargs w = (Inl e, stop a w')
         \<and> finished (heap (stop a w') a)
         \<and> log (stop a w') = log w' @ clear_events"
  using assms
  by (simp add: wait_for_it_def with_stmt_def enter_def exit_def Let_def stop_log stop_finished
           split: prod.splits)

text \<open>\<open>wait_for_it(f)()\<close> with \<open>f\<close> raising \<open>RuntimeError("x")\<close> raises \<open>RuntimeError("x")\<close>.\<close>

theorem wait_for_it_raises_witness:
  "fst (wait_for_it boom [] [] world0) = Inl (Exc ''RuntimeError'' [PyStr ''x''])
   \<and> finished (heap (snd (wait_for_it boom [] [] world0)) 0)
   \<and> log (snd (wait_for_it boom [] [] world0)) = clear_events"
proof -
  have a: "Animation world0 = (0, snd (Animation world0))"
    by (simp add: Animation_def world0_def)
  have f: "boom [] [] (start 0 (snd (Animation world0)))
           = (Inl (Exc ''RuntimeError'' [PyStr ''x'']), start 0 (snd (Animation world0)))"
    by (simp add: boom_def)
  have l: "log (start 0 (snd (Animation world0))) = []"
    by (simp add: defs world0_def)
  show ?thesis
    using wait_for_it_raises [where func = boom and args = "[]" and kwargs = "[]", OF a f] l
    by simp
qed

section \<open>The scoped resource\<close>

text \<open>
  C3. \<open>__enter__\<close> is \<open>start\<close> and gives back the instance itself; \<open>__exit__\<close> is \<open>stop\<close>,
  whatever exception it is handed. A \<open>with\<close> block over an animation therefore ends in the
  world that \<open>stop\<close> makes of the world the body left, with the outcome of the body
  unchanged, for every body; in particular for a body that completes, for one that calls
  \<open>stop\<close> on the bound instance, and for one that raises.
\<close>

theorem with_Animation:
  "enter a w = (a, start a w)
   \<and> exit a exc w = (PyNone, stop a w)
   \<and> with_stmt enter exit a body w =
       (fst (body a (start a w)), stop a (snd (body a (start a w))))
   \<and> with_stmt enter exit a (\<lambda>v w'. (Normal, w')) w = (Normal, stop a (start a w))
   \<and> with_stmt enter exit a (\<lambda>v w'. (Normal, stop v w')) w
       = (Normal, stop a (stop a (start a w)))
   \<and> with_stmt enter exit a (\<lambda>v w'. (Raise e, w')) w = (Raise e, stop a (start a w))"
  by (simp add: enter_def exit_def with_stmt_def Let_def split: prod.splits outcome.splits)

section \<open>Stopping\<close>

text \<open>
  C4. \<open>stop\<close> has no failing branch. After one or more calls \<open>finished\<close> is true; \<open>n\<close> calls
  write the clearing frame \<open>n\<close> times; a second call changes no attribute and writes the
  clearing frame again.
\<close>

theorem stop_idempotent:
  "finished (heap ((stop r ^^ Suc n) w) r)
   \<and> log ((stop r ^^ n) w) = log w @ concat (replicate n clear_events)
   \<and> heap (stop r (stop r w)) = heap (stop r w)
   \<and> log (stop r (stop r w)) = log (stop r w) @ clear_events"
  by (simp add: stop_pow_log stop_finished stop_stop_heap stop_log)

text \<open>
  C10. \<open>stop\<close> on an animation that was created and never started sets \<open>finished\<close>, writes
  the clearing frame and starts no thread; on the flag and on the output it does what it
  does to an animation that was started.
\<close>

theorem stop_without_start:
  "(let (a, w1) = Animation w in
      finished (heap (stop a w1) a)
      \<and> log (stop a w1) = log w @ clear_events
      \<and> threads (stop a w1) = threads w
      \<and> heap (stop a (start a w1)) = heap (stop a w1)
      \<and> log (stop a (start a w1)) = log (stop a w1))"
  by (simp add: Animation_def Let_def init_def stop_def start_def emit_def clear_events_def
           print_events_def)

section \<open>Single steps\<close>

text \<open>
  What one step of a thread, and one action of a run, leave unchanged.
\<close>

lemma animate_heap: "heap (animate i w) = heap w"
  by (simp add: defs split: pc.splits)

lemma animate_next_ref: "next_ref (animate i w) = next_ref w"
  by (simp add: defs split: pc.splits)

lemma animate_length: "length (threads (animate i w)) = length (threads w)"
  by (simp add: defs split: pc.splits)

lemma animate_target: "target (threads (animate i w) ! j) = target (threads w ! j)"
  by (cases "j = i") (simp_all add: defs split: pc.splits)

lemma animate_other: "j \<noteq> i \<Longrightarrow> threads (animate i w) ! j = threads w ! j"
  by (simp add: defs split: pc.splits)

lemma animate_events_other: "j \<noteq> i \<Longrightarrow> events_of (Worker j) (animate i w) = events_of (Worker j) w"
  by (simp add: defs events_of_def split: pc.splits)

lemma step_next_ref: "next_ref w \<le> next_ref (step a w)"
  by (cases a) (simp_all add: animate_next_ref, simp_all add: defs)

lemma step_finished: "r < next_ref w \<Longrightarrow> finished (heap w r) \<Longrightarrow> finished (heap (step a w) r)"
  by (cases a) (simp_all add: animate_heap, simp_all add: defs)

lemma step_length: "length (threads w) \<le> length (threads (step a w))"
  by (cases a) (simp_all add: animate_length, simp_all add: defs)

lemma step_target: "i < length (threads w) \<Longrightarrow> target (threads (step a w) ! i) = target (threads w ! i)"
  by (cases a) (simp_all add: animate_target, simp_all add: defs nth_append)

lemma step_pc_other: "i < length (threads w) \<Longrightarrow> a \<noteq> Tick i \<Longrightarrow> pc (threads (step a w) ! i) = pc (threads w ! i)"
  by (cases a) (simp_all add: animate_other, simp_all add: defs nth_append)

lemma step_events_other: "a \<noteq> Tick i \<Longrightarrow> events_of (Worker i) (step a w) = events_of (Worker i) w"
  by (cases a) (simp_all add: animate_events_other, simp_all add: defs events_of_def)

lemma step_symbol: "symbol w \<le> symbol (step a w)"
  by (cases a) (simp_all add: defs split: pc.splits)

section \<open>Runs\<close>

lemmas eval = run_def defs world0_def

lemma run_Nil: "run [] w = w" by (simp add: run_def)
lemma run_Cons: "run (a # acts) w = run acts (step a w)" by (simp add: run_def)

lemma run_next_ref: "next_ref w \<le> next_ref (run acts w)"
proof (induction acts arbitrary: w)
  case Nil show ?case by (simp add: run_Nil)
next
  case (Cons a acts)
  have "next_ref w \<le> next_ref (step a w)" by (rule step_next_ref)
  also have "\<dots> \<le> next_ref (run acts (step a w))" by (rule Cons.IH)
  finally show ?case by (simp add: run_Cons)
qed

lemma run_finished:
  "r < next_ref w \<Longrightarrow> finished (heap w r) \<Longrightarrow> finished (heap (run acts w) r)"
proof (induction acts arbitrary: w)
  case Nil then show ?case by (simp add: run_Nil)
next
  case (Cons a acts)
  have 1: "r < next_ref (step a w)" using Cons.prems(1) step_next_ref [of w a] by simp
  have 2: "finished (heap (step a w) r)" using Cons.prems by (rule step_finished)
  show ?case using Cons.IH [OF 1 2] by (simp add: run_Cons)
qed

lemma run_symbol: "symbol w \<le> symbol (run acts w)"
proof (induction acts arbitrary: w)
  case Nil show ?case by (simp add: run_Nil)
next
  case (Cons a acts)
  have "symbol w \<le> symbol (step a w)" by (rule step_symbol)
  also have "\<dots> \<le> symbol (run acts (step a w))" by (rule Cons.IH)
  finally show ?case by (simp add: run_Cons)
qed

lemma stopped_thread_step: "stopped_thread i w \<Longrightarrow> stopped_thread i (step a w)"
  unfolding stopped_thread_def
  using step_length [of w a] step_next_ref [of w a] step_target [of i w a]
    step_finished [of "target (threads w ! i)" w a]
  by auto

lemma tick_steps_left:
  "stopped_thread i w \<Longrightarrow>
   steps_left (pc (threads (animate i w) ! i)) = steps_left (pc (threads w ! i)) - 1"
  by (auto simp: stopped_thread_def defs split: pc.splits)

lemma cr_not_frame: "[CHR 0x0D] \<notin> set frames"
  by (simp add: frames_def)

lemma frame_in_frames: "frames ! (c mod length frames) \<in> set frames"
  by (rule nth_mem) (simp add: frames_def)

lemma tick_frame_writes:
  "stopped_thread i w \<Longrightarrow>
   frame_writes (Worker i) (animate i w) =
     frame_writes (Worker i) w + (if pc (threads w ! i) = AtPrint then 1 else 0)"
  by (auto simp: stopped_thread_def defs frame_writes_def events_of_def cr_not_frame
        frame_in_frames split: pc.splits)

lemma step_frame_writes_other:
  "a \<noteq> Tick i \<Longrightarrow> frame_writes (Worker i) (step a w) = frame_writes (Worker i) w"
  by (simp add: frame_writes_def step_events_other)

text \<open>Frames written plus frames still to come: no action changes the sum.\<close>

lemma step_potential:
  assumes "stopped_thread i w"
  shows "frame_writes (Worker i) (step a w) + (if pc (threads (step a w) ! i) = AtPrint then 1 else 0)
         = frame_writes (Worker i) w + (if pc (threads w ! i) = AtPrint then 1 else 0)"
proof (cases "a = Tick i")
  case True
  have "pc (threads (animate i w) ! i) \<noteq> AtPrint"
    using assms by (auto simp: stopped_thread_def defs split: pc.splits)
  then show ?thesis using True tick_frame_writes [OF assms] by simp
next
  case False
  have "i < length (threads w)" using assms by (simp add: stopped_thread_def)
  then show ?thesis using False by (simp add: step_frame_writes_other step_pc_other)
qed

lemma run_potential:
  "stopped_thread i w \<Longrightarrow>
   frame_writes (Worker i) (run acts w) + (if pc (threads (run acts w) ! i) = AtPrint then 1 else 0)
   = frame_writes (Worker i) w + (if pc (threads w ! i) = AtPrint then 1 else 0)"
proof (induction acts arbitrary: w)
  case Nil show ?case by (simp add: run_Nil)
next
  case (Cons a acts)
  have s: "stopped_thread i (step a w)" using Cons.prems by (rule stopped_thread_step)
  show ?case using Cons.IH [OF s] step_potential [OF Cons.prems, of a] by (simp add: run_Cons)
qed

lemma step_steps_left:
  assumes "stopped_thread i w"
  shows "steps_left (pc (threads (step a w) ! i))
         = steps_left (pc (threads w ! i)) - (if a = Tick i then 1 else 0)"
proof (cases "a = Tick i")
  case True
  then show ?thesis using tick_steps_left [OF assms] by simp
next
  case False
  have "i < length (threads w)" using assms by (simp add: stopped_thread_def)
  then show ?thesis using False by (simp add: step_pc_other)
qed

lemma run_steps_left:
  "stopped_thread i w \<Longrightarrow>
   steps_left (pc (threads (run acts w) ! i))
   = steps_left (pc (threads w ! i)) - count_list acts (Tick i)"
proof (induction acts arbitrary: w)
  case Nil show ?case by (simp add: run_Nil)
next
  case (Cons a acts)
  have s: "stopped_thread i (step a w)" using Cons.prems by (rule stopped_thread_step)
  show ?case using Cons.IH [OF s] step_steps_left [OF Cons.prems, of a] by (auto simp: run_Cons)
qed

lemma steps_left_0: "steps_left p = 0 \<longleftrightarrow> p = Exited"
  by (cases p) simp_all

lemma steps_left_le: "steps_left p \<le> 3"
  by (cases p) simp_all

lemma animate_exited: "pc (threads w ! i) = Exited \<Longrightarrow> animate i w = w"
  by (simp add: animate_def)

text \<open>A thread that has left the loop emits nothing more.\<close>

lemma step_exited:
  assumes "i < length (threads w)" and "pc (threads w ! i) = Exited"
  shows "events_of (Worker i) (step a w) = events_of (Worker i) w
         \<and> pc (threads (step a w) ! i) = Exited"
proof (cases "a = Tick i")
  case True
  then show ?thesis using assms by (simp add: animate_exited)
next
  case False
  then show ?thesis using assms by (simp add: step_events_other step_pc_other)
qed

lemma run_exited:
  "i < length (threads w) \<Longrightarrow> pc (threads w ! i) = Exited \<Longrightarrow>
   events_of (Worker i) (run acts w) = events_of (Worker i) w
   \<and> pc (threads (run acts w) ! i) = Exited"
proof (induction acts arbitrary: w)
  case Nil then show ?case by (simp add: run_Nil)
next
  case (Cons a acts)
  have l: "i < length (threads (step a w))" using Cons.prems(1) step_length [of w a] by simp
  have e: "pc (threads (step a w) ! i) = Exited" using step_exited [OF Cons.prems] by simp
  show ?case using Cons.IH [OF l e] step_exited [OF Cons.prems, of a] by (simp add: run_Cons)
qed

lemma length_frames: "length frames = 9"
  by (simp add: frames_def)

lemma step_idle:
  assumes "stopped_thread i w" and "pc (threads w ! i) = AtCheck \<or> pc (threads w ! i) = Exited"
  shows "events_of (Worker i) (step a w) = events_of (Worker i) w
         \<and> (pc (threads (step a w) ! i) = AtCheck \<or> pc (threads (step a w) ! i) = Exited)"
proof (cases "a = Tick i")
  case True
  then show ?thesis using assms
    by (auto simp: stopped_thread_def defs events_of_def split: pc.splits)
next
  case False
  have "i < length (threads w)" using assms(1) by (simp add: stopped_thread_def)
  then show ?thesis using False assms(2) by (simp add: step_events_other step_pc_other)
qed

lemma run_idle:
  "stopped_thread i w \<Longrightarrow> pc (threads w ! i) = AtCheck \<or> pc (threads w ! i) = Exited \<Longrightarrow>
   events_of (Worker i) (run acts w) = events_of (Worker i) w"
proof (induction acts arbitrary: w)
  case Nil show ?case by (simp add: run_Nil)
next
  case (Cons a acts)
  have s: "stopped_thread i (step a w)" using Cons.prems(1) by (rule stopped_thread_step)
  note st = step_idle [OF Cons.prems, of a]
  have p: "pc (threads (step a w) ! i) = AtCheck \<or> pc (threads (step a w) ! i) = Exited"
    using st by simp
  show ?case using Cons.IH [OF s p] st by (simp add: run_Cons)
qed

lemma run_append: "run (xs @ ys) w = run ys (run xs w)"
  by (simp add: run_def)

lemma run_length: "length (threads w) \<le> length (threads (run acts w))"
proof (induction acts arbitrary: w)
  case Nil show ?case by (simp add: run_Nil)
next
  case (Cons a acts)
  have "length (threads w) \<le> length (threads (step a w))" by (rule step_length)
  also have "\<dots> \<le> length (threads (run acts (step a w)))" by (rule Cons.IH)
  finally show ?case by (simp add: run_Cons)
qed

section \<open>The flag\<close>

text \<open>
  C5. \<open>stop\<close> sets the flag, and in every run (calls of the constructor, \<open>start\<close>, \<open>stop\<close>,
  \<open>__enter__\<close>, \<open>__exit__\<close> on any instances, steps of any threads) the flag of an existing
  instance, once true, stays true. So when the flag is set, the thread that \<open>start\<close> creates
  stands at the loop test with the flag set: its first step leaves the loop, and in every
  run it emits no event at all.
\<close>

theorem finished_never_reset:
  assumes "r < next_ref w"
  shows "finished (heap (stop r w) r)
         \<and> (finished (heap w r) \<longrightarrow>
              finished (heap (run acts w) r)
              \<and> (let w1 = start r w; i = length (threads w) in
                    threads w1 ! i = \<lparr>target = r, pc = AtCheck\<rparr>
                    \<and> animate i w1 = set_pc i Exited w1
                    \<and> events_of (Worker i) (run acts w1) = events_of (Worker i) w1
                    \<and> (Tick i \<in> set acts \<longrightarrow> pc (threads (run acts w1) ! i) = Exited)))"
proof -
  define w1 where "w1 = start r w"
  define i where "i = length (threads w)"
  have th: "threads w1 ! i = \<lparr>target = r, pc = AtCheck\<rparr>"
    by (simp add: w1_def i_def defs)
  have len: "i < length (threads w1)"
    by (simp add: w1_def i_def defs)
  have nr: "next_ref w1 = next_ref w" and hp: "heap w1 = heap w"
    by (simp_all add: w1_def defs)
  have rest: "animate i w1 = set_pc i Exited w1
      \<and> events_of (Worker i) (run acts w1) = events_of (Worker i) w1
      \<and> (Tick i \<in> set acts \<longrightarrow> pc (threads (run acts w1) ! i) = Exited)"
    if fin: "finished (heap w r)"
  proof -
    have st: "stopped_thread i w1"
      using th fin len nr hp assms by (simp add: stopped_thread_def)
    have a: "animate i w1 = set_pc i Exited w1"
      using th fin len hp by (simp add: animate_def)
    have e: "events_of (Worker i) (run acts w1) = events_of (Worker i) w1"
      using st th by (simp add: run_idle)
    have x: "pc (threads (run acts w1) ! i) = Exited" if "Tick i \<in> set acts"
    proof -
      have "count_list acts (Tick i) \<noteq> 0"
        using that count_list_0_iff [of acts "Tick i"] by blast
      then have "0 < count_list acts (Tick i)" by simp
      then have "steps_left (pc (threads (run acts w1) ! i)) = 0"
        using run_steps_left [OF st, of acts] th by simp
      then show ?thesis by (simp add: steps_left_0)
    qed
    show ?thesis using a e x by blast
  qed
  have m: "finished (heap w r) \<longrightarrow> finished (heap (run acts w) r)"
    using assms by (simp add: run_finished)
  show ?thesis
    using m th rest stop_finished [of r w] unfolding w1_def i_def Let_def by blast
qed

text \<open>
  An instance is created and stopped; then \<open>start\<close>, and a run in which the new thread
  takes its step among other calls.
\<close>

theorem finished_never_reset_witness:
  "0 < next_ref (run [New, Stop 0] world0)
   \<and> finished (heap (run [New, Stop 0] world0) 0)
   \<and> finished (heap (run [New, Tick 0, Start 0, Enter 0] (run [New, Stop 0] world0)) 0)
   \<and> length (threads (run [New, Stop 0] world0)) = 0
   \<and> events_of (Worker 0) (start 0 (run [New, Stop 0] world0)) = []
   \<and> Tick 0 \<in> set [New, Tick 0, Start 0, Enter 0]
   \<and> events_of (Worker 0)
        (run [New, Tick 0, Start 0, Enter 0] (start 0 (run [New, Stop 0] world0))) = []
   \<and> pc (threads (run [New, Tick 0, Start 0, Enter 0]
                     (start 0 (run [New, Stop 0] world0))) ! 0) = Exited"
proof -
  define w where "w = run [New, Stop 0] world0"
  have h: "0 < next_ref w" by (simp add: w_def eval)
  have f: "finished (heap w 0)" by (simp add: w_def eval)
  have l: "length (threads w) = 0" by (simp add: w_def eval)
  have e: "events_of (Worker 0) (start 0 w) = []"
    by (simp add: w_def eval events_of_def)
  have m: "Tick 0 \<in> set [New, Tick 0, Start 0, Enter 0]" by simp
  note t = finished_never_reset [OF h, of "[New, Tick 0, Start 0, Enter 0]", unfolded Let_def l]
  show ?thesis
    using t h f l e m unfolding w_def [symmetric] by simp
qed

section \<open>The loop\<close>

lemma iteration:
  assumes "i < length (threads w)" and "pc (threads w ! i) = AtCheck"
    and "\<not> finished (heap w (target (threads w ! i)))"
  shows "log (animate i (animate i (animate i w))) = log w @ iteration_events i (symbol w)"
    and "symbol (animate i (animate i (animate i w))) = Suc (symbol w)"
    and "threads (animate i (animate i (animate i w))) = threads w"
    and "heap (animate i (animate i (animate i w))) = heap w"
proof -
  define w1 where "w1 = animate i w"
  define w2 where "w2 = animate i w1"
  define w3 where "w3 = animate i w2"
  have w1: "w1 = set_pc i AtPrint w"
    using assms by (simp add: w1_def animate_def)
  have p1: "i < length (threads w1)" "pc (threads w1 ! i) = AtPrint"
    using assms(1) by (simp_all add: w1 set_pc_def)
  have w2: "w2 = set_pc i AtSleep
                   (emit (Worker i) (print_events (frames ! (symbol w mod 9)) [CHR 0x0D] True)
                      (w1\<lparr>symbol := Suc (symbol w)\<rparr>))"
    using p1 by (simp add: w2_def animate_def next_symbol_def length_frames w1 set_pc_def)
  have p2: "i < length (threads w2)" "pc (threads w2 ! i) = AtSleep"
    using p1(1) by (simp_all add: w2 set_pc_def emit_def)
  have w3: "w3 = set_pc i AtCheck (emit (Worker i) [Sleep interval] w2)"
    using p2 by (simp add: w3_def animate_def)
  have "log w3 = log w @ iteration_events i (symbol w)"
    by (simp add: w3 w2 w1 set_pc_def emit_def print_events_def iteration_events_def interval_def)
  moreover have "symbol w3 = Suc (symbol w)"
    by (simp add: w3 w2 w1 set_pc_def emit_def)
  moreover have "threads w3 = threads w"
    using assms(1,2)
    by (simp add: w3 w2 w1 set_pc_def emit_def list_eq_iff_nth_eq nth_list_update)
  moreover have "heap w3 = heap w"
    by (simp add: w3 w2 w1 set_pc_def emit_def)
  ultimately show "log (animate i (animate i (animate i w))) = log w @ iteration_events i (symbol w)"
    and "symbol (animate i (animate i (animate i w))) = Suc (symbol w)"
    and "threads (animate i (animate i (animate i w))) = threads w"
    and "heap (animate i (animate i (animate i w))) = heap w"
    by (simp_all add: w3_def w2_def w1_def)
qed

lemma funpow_3_Suc: "(f ^^ (3 * Suc n)) w = (f ^^ (3 * n)) (f (f (f w)))"
proof -
  have "3 * Suc n = 3 * n + 3" by simp
  then have "(f ^^ (3 * Suc n)) w = (f ^^ (3 * n)) ((f ^^ 3) w)"
    by (simp only: funpow_add o_apply)
  then show ?thesis by (simp add: numeral_3_eq_3)
qed

lemma iterations:
  "i < length (threads w) \<Longrightarrow> pc (threads w ! i) = AtCheck \<Longrightarrow>
   \<not> finished (heap w (target (threads w ! i))) \<Longrightarrow>
   log ((animate i ^^ (3 * n)) w) =
     log w @ concat (map (iteration_events i) [symbol w ..< symbol w + n])
   \<and> symbol ((animate i ^^ (3 * n)) w) = symbol w + n
   \<and> threads ((animate i ^^ (3 * n)) w) = threads w"
proof (induction n arbitrary: w)
  case 0
  show ?case by simp
next
  case (Suc n)
  let ?w3 = "animate i (animate i (animate i w))"
  note it = iteration [OF Suc.prems]
  have a: "i < length (threads ?w3)" using Suc.prems(1) it(3) by simp
  have b: "pc (threads ?w3 ! i) = AtCheck" using Suc.prems(2) it(3) by simp
  have c: "\<not> finished (heap ?w3 (target (threads ?w3 ! i)))" using Suc.prems(3) it(3,4) by simp
  note ih = Suc.IH [OF a b c]
  have u: "[symbol w ..< symbol w + Suc n] = symbol w # [Suc (symbol w) ..< Suc (symbol w) + n]"
    by (simp add: upt_conv_Cons)
  show ?case
    unfolding funpow_3_Suc u using ih it by simp
qed

text \<open>
  C6. \<open>start\<close> adds a thread that stands at the loop test. A thread at the loop test whose
  instance is not finished makes, in \<open>3 * n\<close> steps of its own, \<open>n\<close> passages through the loop
  body: each writes the next frame of the shared cycle, then a carriage return and nothing
  else, flushes, sleeps 0.075 seconds, and is back at the loop test. A thread at the loop
  test whose instance is finished leaves the loop and writes nothing.
\<close>

theorem animate_iterations:
  assumes "i < length (threads w)" and "pc (threads w ! i) = AtCheck"
  shows "threads (start r w) = threads w @ [\<lparr>target = r, pc = AtCheck\<rparr>]
         \<and> (\<not> finished (heap w (target (threads w ! i))) \<longrightarrow>
            log ((animate i ^^ (3 * n)) w) =
              log w @ concat (map (iteration_events i) [symbol w ..< symbol w + n])
            \<and> symbol ((animate i ^^ (3 * n)) w) = symbol w + n
            \<and> pc (threads ((animate i ^^ (3 * n)) w) ! i) = AtCheck)
         \<and> (finished (heap w (target (threads w ! i))) \<longrightarrow>
            pc (threads (animate i w) ! i) = Exited
            \<and> log (animate i w) = log w
            \<and> symbol (animate i w) = symbol w)"
proof -
  have 0: "threads (start r w) = threads w @ [\<lparr>target = r, pc = AtCheck\<rparr>]"
    by (simp add: start_def)
  have 1: "log ((animate i ^^ (3 * n)) w) =
              log w @ concat (map (iteration_events i) [symbol w ..< symbol w + n])
            \<and> symbol ((animate i ^^ (3 * n)) w) = symbol w + n
            \<and> pc (threads ((animate i ^^ (3 * n)) w) ! i) = AtCheck"
    if "\<not> finished (heap w (target (threads w ! i)))"
    using iterations [OF assms that, of n] assms(2) by simp
  have 2: "pc (threads (animate i w) ! i) = Exited \<and> log (animate i w) = log w
           \<and> symbol (animate i w) = symbol w"
    if "finished (heap w (target (threads w ! i)))"
    using assms that by (simp add: animate_def set_pc_def)
  show ?thesis using 0 1 2 by blast
qed

text \<open>
  A started animation makes two passages; a started and stopped one leaves at once.
\<close>

theorem animate_iterations_witness:
  "0 < length (threads (run [New, Start 0] world0))
   \<and> pc (threads (run [New, Start 0] world0) ! 0) = AtCheck
   \<and> \<not> finished (heap (run [New, Start 0] world0) (target (threads (run [New, Start 0] world0) ! 0)))
   \<and> log ((animate 0 ^^ (3 * 2)) (run [New, Start 0] world0))
      = [(Worker 0, Write '' ...      ''), (Worker 0, Write [CHR 0x0D]), (Worker 0, Flush),
         (Worker 0, Sleep (75 / 1000)),
         (Worker 0, Write ''  ...     ''), (Worker 0, Write [CHR 0x0D]), (Worker 0, Flush),
         (Worker 0, Sleep (75 / 1000))]
   \<and> 0 < length (threads (run [New, Start 0, Stop 0] world0))
   \<and> pc (threads (run [New, Start 0, Stop 0] world0) ! 0) = AtCheck
   \<and> finished (heap (run [New, Start 0, Stop 0] world0)
                      (target (threads (run [New, Start 0, Stop 0] world0) ! 0)))
   \<and> pc (threads (animate 0 (run [New, Start 0, Stop 0] world0)) ! 0) = Exited
   \<and> log (animate 0 (run [New, Start 0, Stop 0] world0)) = clear_events"
proof -
  define w where "w = run [New, Start 0] world0"
  define v where "v = run [New, Start 0, Stop 0] world0"
  have w1: "0 < length (threads w)" by (simp add: w_def eval)
  have w2: "pc (threads w ! 0) = AtCheck" by (simp add: w_def eval)
  have w3: "\<not> finished (heap w (target (threads w ! 0)))" by (simp add: w_def eval)
  have w4: "log w = []" "symbol w = 0" by (simp_all add: w_def eval)
  have u: "[0 ..< 0 + 2] = [0, Suc 0]" by (simp add: upt_conv_Cons)
  have v1: "0 < length (threads v)" by (simp add: v_def eval)
  have v2: "pc (threads v ! 0) = AtCheck" by (simp add: v_def eval)
  have v3: "finished (heap v (target (threads v ! 0)))" by (simp add: v_def eval)
  have v4: "log v = clear_events" by (simp add: v_def eval clear_events_def)
  note tw = animate_iterations [OF w1 w2, where n = 2]
  note tv = animate_iterations [OF v1 v2, where n = 0]
  have a: "log ((animate 0 ^^ (3 * 2)) w) =
      [(Worker 0, Write '' ...      ''), (Worker 0, Write [CHR 0x0D]), (Worker 0, Flush),
         (Worker 0, Sleep (75 / 1000)),
         (Worker 0, Write ''  ...     ''), (Worker 0, Write [CHR 0x0D]), (Worker 0, Flush),
         (Worker 0, Sleep (75 / 1000))]"
    using tw w3 w4 u by (simp add: iteration_events_def frames_def)
  have b: "pc (threads (animate 0 v) ! 0) = Exited \<and> log (animate 0 v) = clear_events"
    using tv v3 v4 by simp
  show ?thesis
    using a b w1 w2 w3 v1 v2 v3 unfolding w_def [symmetric] v_def [symmetric] by simp
qed

lemma tick_sleeps:
  "stopped_thread i w \<Longrightarrow>
   sleeps (Worker i) (animate i w) =
     sleeps (Worker i) w + (if pc (threads w ! i) = AtSleep then 1 else 0)"
  by (auto simp: stopped_thread_def defs sleeps_def events_of_def split: pc.splits)

text \<open>Sleeps done plus sleeps still to come: no action changes the sum.\<close>

lemma step_sleeps:
  assumes "stopped_thread i w"
  shows "sleeps (Worker i) (step a w)
           + (if pc (threads (step a w) ! i) = AtPrint \<or> pc (threads (step a w) ! i) = AtSleep
              then 1 else 0)
         = sleeps (Worker i) w
           + (if pc (threads w ! i) = AtPrint \<or> pc (threads w ! i) = AtSleep then 1 else 0)"
proof (cases "a = Tick i")
  case True
  have "pc (threads (animate i w) ! i) =
          (case pc (threads w ! i) of AtPrint \<Rightarrow> AtSleep | AtSleep \<Rightarrow> AtCheck | _ \<Rightarrow> Exited)"
    using assms by (auto simp: stopped_thread_def defs split: pc.splits)
  then show ?thesis using True tick_sleeps [OF assms] by (simp split: pc.splits)
next
  case False
  have "i < length (threads w)" using assms by (simp add: stopped_thread_def)
  then show ?thesis using False by (simp add: sleeps_def step_events_other step_pc_other)
qed

lemma run_sleeps:
  "stopped_thread i w \<Longrightarrow>
   sleeps (Worker i) (run acts w)
     + (if pc (threads (run acts w) ! i) = AtPrint \<or> pc (threads (run acts w) ! i) = AtSleep
        then 1 else 0)
   = sleeps (Worker i) w
     + (if pc (threads w ! i) = AtPrint \<or> pc (threads w ! i) = AtSleep then 1 else 0)"
proof (induction acts arbitrary: w)
  case Nil show ?case by (simp add: run_Nil)
next
  case (Cons a acts)
  have s: "stopped_thread i (step a w)" using Cons.prems by (rule stopped_thread_step)
  show ?case using Cons.IH [OF s] step_sleeps [OF Cons.prems, of a] by (simp add: run_Cons)
qed

text \<open>
  C7. Let the flag of an instance be set and take any of its threads. In every run from
  there the thread writes at most one more frame, and none unless it stood between the loop
  test and the \<open>print\<close>; it sleeps at most once more; after three steps of its own, at the
  latest, it has left the loop; and once it has left the loop it emits nothing in any
  continuation of the run.
\<close>

theorem loop_ceases:
  assumes "i < length (threads w)" and "target (threads w ! i) = r"
    and "r < next_ref w" and "finished (heap w r)"
  shows "frame_writes (Worker i) (run acts w)
           \<le> frame_writes (Worker i) w + (if pc (threads w ! i) = AtPrint then 1 else 0)
         \<and> sleeps (Worker i) (run acts w)
           \<le> sleeps (Worker i) w
               + (if pc (threads w ! i) = AtPrint \<or> pc (threads w ! i) = AtSleep then 1 else 0)
         \<and> (3 \<le> count_list acts (Tick i) \<longrightarrow> pc (threads (run acts w) ! i) = Exited)
         \<and> (pc (threads (run acts w) ! i) = Exited \<longrightarrow>
              events_of (Worker i) (run (acts @ rest) w) = events_of (Worker i) (run acts w)
              \<and> pc (threads (run (acts @ rest) w) ! i) = Exited)"
proof -
  have st: "stopped_thread i w"
    using assms by (simp add: stopped_thread_def)
  note pot = run_potential [OF st, of acts]
  note left = run_steps_left [OF st, of acts]
  have 1: "frame_writes (Worker i) (run acts w)
           \<le> frame_writes (Worker i) w + (if pc (threads w ! i) = AtPrint then 1 else 0)"
    using pot by (simp split: if_splits)
  have 2: "sleeps (Worker i) (run acts w)
           \<le> sleeps (Worker i) w
               + (if pc (threads w ! i) = AtPrint \<or> pc (threads w ! i) = AtSleep then 1 else 0)"
    using run_sleeps [OF st, of acts] by (simp split: if_splits)
  have 3: "pc (threads (run acts w) ! i) = Exited" if "3 \<le> count_list acts (Tick i)"
  proof -
    have "steps_left (pc (threads (run acts w) ! i)) = 0"
      using left that steps_left_le [of "pc (threads w ! i)"] by simp
    then show ?thesis by (simp add: steps_left_0)
  qed
  have 4: "events_of (Worker i) (run (acts @ rest) w) = events_of (Worker i) (run acts w)
           \<and> pc (threads (run (acts @ rest) w) ! i) = Exited"
    if "pc (threads (run acts w) ! i) = Exited"
  proof -
    have "i < length (threads (run acts w))"
      using assms(1) run_length [of w acts] by simp
    then show ?thesis using that by (simp add: run_append run_exited)
  qed
  show ?thesis using 1 2 3 4 by blast
qed

text \<open>
  \<open>stop\<close> arrives when the thread has passed the loop test: three steps later the thread
  has written at most one frame, slept at most once and left the loop, and further actions
  add nothing.
\<close>

theorem loop_ceases_witness:
  "0 < length (threads (run [New, Start 0, Tick 0, Stop 0] world0))
   \<and> target (threads (run [New, Start 0, Tick 0, Stop 0] world0) ! 0) = 0
   \<and> 0 < next_ref (run [New, Start 0, Tick 0, Stop 0] world0)
   \<and> finished (heap (run [New, Start 0, Tick 0, Stop 0] world0) 0)
   \<and> pc (threads (run [New, Start 0, Tick 0, Stop 0] world0) ! 0) = AtPrint
   \<and> frame_writes (Worker 0) (run [New, Start 0, Tick 0, Stop 0] world0) = 0
   \<and> sleeps (Worker 0) (run [New, Start 0, Tick 0, Stop 0] world0) = 0
   \<and> frame_writes (Worker 0)
        (run [Tick 0, Tick 0, Tick 0] (run [New, Start 0, Tick 0, Stop 0] world0)) \<le> 1
   \<and> sleeps (Worker 0)
        (run [Tick 0, Tick 0, Tick 0] (run [New, Start 0, Tick 0, Stop 0] world0)) \<le> 1
   \<and> pc (threads (run [Tick 0, Tick 0, Tick 0] (run [New, Start 0, Tick 0, Stop 0] world0)) ! 0)
     = Exited
   \<and> events_of (Worker 0) (run ([Tick 0, Tick 0, Tick 0] @ [Tick 0, Start 0, Tick 0])
                              (run [New, Start 0, Tick 0, Stop 0] world0))
     = events_of (Worker 0)
         (run [Tick 0, Tick 0, Tick 0] (run [New, Start 0, Tick 0, Stop 0] world0))"
proof -
  define w where "w = run [New, Start 0, Tick 0, Stop 0] world0"
  have h1: "0 < length (threads w)" by (simp add: w_def eval)
  have h2: "target (threads w ! 0) = 0" by (simp add: w_def eval)
  have h3: "0 < next_ref w" by (simp add: w_def eval)
  have h4: "finished (heap w 0)" by (simp add: w_def eval)
  have p: "pc (threads w ! 0) = AtPrint" by (simp add: w_def eval)
  have f: "frame_writes (Worker 0) w = 0"
    by (simp add: w_def eval frame_writes_def events_of_def)
  have s: "sleeps (Worker 0) w = 0"
    by (simp add: w_def eval sleeps_def events_of_def)
  have c: "3 \<le> count_list [Tick 0, Tick 0, Tick 0] (Tick 0)" by simp
  note t = loop_ceases [OF h1 h2 h3 h4, of "[Tick 0, Tick 0, Tick 0]" "[Tick 0, Start 0, Tick 0]"]
  show ?thesis
    using t c h1 h2 h3 h4 p f s unfolding w_def [symmetric] by simp
qed

section \<open>The shared cursor\<close>

text \<open>
  C9. There is one cursor for all instances. When two threads, of whatever instances, both
  stand at the \<open>print\<close> line, the second writes the frame that follows the one the first
  wrote. Creating, starting or stopping an animation leaves the cursor where it is, and in
  no run does the cursor go back.
\<close>

theorem symbol_shared:
  assumes "i < length (threads w)" and "j < length (threads w)" and "i \<noteq> j"
    and "pc (threads w ! i) = AtPrint" and "pc (threads w ! j) = AtPrint"
  shows "log (animate j (animate i w)) =
           log w @ [(Worker i, Write (frames ! (symbol w mod 9))),
                    (Worker i, Write [CHR 0x0D]), (Worker i, Flush),
                    (Worker j, Write (frames ! (Suc (symbol w) mod 9))),
                    (Worker j, Write [CHR 0x0D]), (Worker j, Flush)]
         \<and> symbol (animate j (animate i w)) = symbol w + 2
         \<and> symbol (snd (Animation w)) = symbol w
         \<and> symbol (start r w) = symbol w
         \<and> symbol (stop r w) = symbol w
         \<and> symbol w \<le> symbol (run acts w)"
proof -
  have 1: "animate i w = set_pc i AtSleep
             (emit (Worker i) (print_events (frames ! (symbol w mod 9)) [CHR 0x0D] True)
                (w\<lparr>symbol := Suc (symbol w)\<rparr>))"
    using assms(1,4) by (simp add: animate_def next_symbol_def length_frames)
  have l: "j < length (threads (animate i w))" "pc (threads (animate i w) ! j) = AtPrint"
    using assms(2,3,5) by (simp_all add: 1 set_pc_def emit_def)
  have s: "symbol (animate i w) = Suc (symbol w)"
    by (simp add: 1 set_pc_def emit_def)
  have 2: "animate j (animate i w) = set_pc j AtSleep
             (emit (Worker j) (print_events (frames ! (Suc (symbol w) mod 9)) [CHR 0x0D] True)
                ((animate i w)\<lparr>symbol := Suc (Suc (symbol w))\<rparr>))"
    using l s by (simp add: animate_def [of j] next_symbol_def length_frames)
  have "log (animate j (animate i w)) =
           log w @ [(Worker i, Write (frames ! (symbol w mod 9))),
                    (Worker i, Write [CHR 0x0D]), (Worker i, Flush),
                    (Worker j, Write (frames ! (Suc (symbol w) mod 9))),
                    (Worker j, Write [CHR 0x0D]), (Worker j, Flush)]"
    unfolding 2 by (simp add: 1 set_pc_def emit_def print_events_def)
  moreover have "symbol (animate j (animate i w)) = symbol w + 2"
    unfolding 2 by (simp add: set_pc_def emit_def)
  moreover have "symbol (snd (Animation w)) = symbol w" "symbol (start r w) = symbol w"
    "symbol (stop r w) = symbol w"
    by (simp_all add: defs)
  moreover have "symbol w \<le> symbol (run acts w)"
    by (rule run_symbol)
  ultimately show ?thesis by simp
qed

text \<open>
  Two instances, one thread each: thread 0 writes the first frame, thread 1 the second.
\<close>

theorem symbol_shared_witness:
  "target (threads (run [New, New, Start 0, Start 1, Tick 0, Tick 1] world0) ! 0) = 0
   \<and> target (threads (run [New, New, Start 0, Start 1, Tick 0, Tick 1] world0) ! 1) = 1
   \<and> pc (threads (run [New, New, Start 0, Start 1, Tick 0, Tick 1] world0) ! 0) = AtPrint
   \<and> pc (threads (run [New, New, Start 0, Start 1, Tick 0, Tick 1] world0) ! 1) = AtPrint
   \<and> length (threads (run [New, New, Start 0, Start 1, Tick 0, Tick 1] world0)) = 2
   \<and> log (animate 1 (animate 0 (run [New, New, Start 0, Start 1, Tick 0, Tick 1] world0)))
      = [(Worker 0, Write '' ...      ''), (Worker 0, Write [CHR 0x0D]), (Worker 0, Flush),
         (Worker 1, Write ''  ...     ''), (Worker 1, Write [CHR 0x0D]), (Worker 1, Flush)]
   \<and> symbol (animate 1 (animate 0 (run [New, New, Start 0, Start 1, Tick 0, Tick 1] world0))) = 2"
proof -
  define w where "w = run [New, New, Start 0, Start 1, Tick 0, Tick 1] world0"
  have t0: "target (threads w ! 0) = 0" by (simp add: w_def eval)
  have t1: "target (threads w ! 1) = 1" by (simp add: w_def eval)
  have p0: "pc (threads w ! 0) = AtPrint" by (simp add: w_def eval)
  have p1: "pc (threads w ! 1) = AtPrint" by (simp add: w_def eval)
  have l: "length (threads w) = 2" by (simp add: w_def eval)
  have l0: "0 < length (threads w)" and l1: "1 < length (threads w)" using l by simp_all
  have ne: "(0::nat) \<noteq> 1" by simp
  have s: "log w = []" "symbol w = 0" by (simp_all add: w_def eval)
  note t = symbol_shared [OF l0 l1 ne p0 p1]
  have a: "log (animate 1 (animate 0 w))
      = [(Worker 0, Write '' ...      ''), (Worker 0, Write [CHR 0x0D]), (Worker 0, Flush),
         (Worker 1, Write ''  ...     ''), (Worker 1, Write [CHR 0x0D]), (Worker 1, Flush)]"
    using t s by (simp add: frames_def)
  have b: "symbol (animate 1 (animate 0 w)) = 2"
    using t s by simp
  show ?thesis
    using a b t0 t1 p0 p1 l unfolding w_def [symmetric] by simp
qed

end
